theory Spec2Isabelle
  imports Main
begin

section \<open>Data model\<close>

text \<open>
  The invite slice of the trip-planning backend: \<^verbatim>\<open>apps/invite/models.py\<close>,
  \<^verbatim>\<open>apps/invite/views.py\<close> and \<^verbatim>\<open>common/auth_backends/AdminBackend.py\<close>.
  Database tables are explicit values that every operation receives and returns; an
  exception raised by the Python code is a value of type \<open>error\<close>.
\<close>

text \<open>
  Modelled from the spec: the status constants of \<^verbatim>\<open>apps/invite/constants.py\<close>, which is
  not part of the sources at hand. The spec names the four states pending, accepted,
  rejected and cancelled.
\<close>

datatype status = PENDING | ACCEPTED | REJECTED | CANCELLED

text \<open>A user row: primary key and stored email address.\<close>

record user =
  user_pk :: nat
  user_email :: string

text \<open>
  Modelled from the spec: the Trip model (\<^verbatim>\<open>apps/trip/models.py\<close> is not part of the
  sources at hand). It has a public identifier, an owner (a foreign key to a user) and a set
  of members (a many-to-many relation to users, the rows of the through table listed here
  by user key).
\<close>

record trip =
  trip_uid :: string
  owner :: nat
  members :: "nat list"

text \<open>
  An invite row. \<^verbatim>\<open>trip\<close> and \<^verbatim>\<open>email\<close> are declared in \<^verbatim>\<open>models.py\<close>; the primary key
  and \<^verbatim>\<open>uid\<close> come from the abstract base models, and \<^verbatim>\<open>status\<close> is the field the views
  filter on. An object that has not been saved yet has no primary key.
\<close>

record invite =
  invite_pk :: "nat option"
  uid :: string
  trip :: nat
  email :: string
  status :: status

record db =
  trips :: "nat \<rightharpoonup> trip"
  invites :: "invite list"

text \<open>
  The part of a request the views read: the authenticated user and the \<^verbatim>\<open>trip\<close> query
  parameter (\<open>None\<close> when the parameter is absent).
\<close>

record request =
  user :: user
  query_trip :: "string option"

datatype error =
    NotFound
  | ValidationError
  | PermissionError
  | InviteDoesNotExist
  | TripDoesNotExist
  | MultipleObjectsReturned
  | IntegrityError
  | AttributeError

datatype response = HTTP_204_NO_CONTENT

section \<open>Email normalisation\<close>

text \<open>
  A character of a \<open>string\<close> stands for a Unicode code point below 256; the strings of
  the model are the Python strings made of such code points. On them \<^verbatim>\<open>str.lower()\<close> works
  character by character: the letters with codes 65 to 90 (A to Z), 192 to 214 and 216 to
  222 (the capital letters of Latin-1, the multiplication sign 215 excepted) move up by 32
  and every other character stays. \<^verbatim>\<open>str.strip()\<close> removes from both ends the characters
  for which \<^verbatim>\<open>str.isspace()\<close> holds: the codes 9 to 13, 28 to 32, 133 and 160.
\<close>

definition lower_char :: "char \<Rightarrow> char" where
  "lower_char c =
     (let n = (of_char c :: nat)
      in if (65 \<le> n \<and> n \<le> 90) \<or> (192 \<le> n \<and> n \<le> 214) \<or> (216 \<le> n \<and> n \<le> 222)
         then char_of (n + 32) else c)"

definition lower :: "string \<Rightarrow> string" where
  "lower s = map lower_char s"

definition isspace :: "char \<Rightarrow> bool" where
  "isspace c =
     (let n = (of_char c :: nat)
      in (9 \<le> n \<and> n \<le> 13) \<or> (28 \<le> n \<and> n \<le> 32) \<or> n = 133 \<or> n = 160)"

definition strip :: "string \<Rightarrow> string" where
  "strip s = rev (dropWhile isspace (rev (dropWhile isspace s)))"

text \<open>\<^verbatim>\<open>value.lower().strip()\<close>, as written in \<^verbatim>\<open>Invite.save\<close> and \<^verbatim>\<open>authenticate\<close>.\<close>

definition normalise :: "string \<Rightarrow> string" where
  "normalise s = strip (lower s)"

section \<open>Query sets\<close>

text \<open>
  \<^verbatim>\<open>QuerySet.get(uid=...)\<close>: the single matching row, \<^verbatim>\<open>DoesNotExist\<close> when there is none and
  \<^verbatim>\<open>MultipleObjectsReturned\<close> when the query yields more than one row.
\<close>

definition get_uid :: "invite list \<Rightarrow> string \<Rightarrow> error + invite" where
  "get_uid qs u =
     (case filter (\<lambda>i. uid i = u) qs of
        [] \<Rightarrow> Inl InviteDoesNotExist
      | [i] \<Rightarrow> Inr i
      | _ # _ # _ \<Rightarrow> Inl MultipleObjectsReturned)"

text \<open>
  Modelled from the spec: the manager method \<^verbatim>\<open>Invite.objects.pending()\<close>, which
  \<^verbatim>\<open>models.py\<close> as given does not define. The spec describes it as the invites filtered to
  pending status, with no restriction to a user.
\<close>

definition objects_pending :: "db \<Rightarrow> invite list" where
  "objects_pending d = filter (\<lambda>i. status i = PENDING) (invites d)"

text \<open>
  The rows of the many-to-many through table that the query joins to a trip. The filter
  \<^verbatim>\<open>Q(trip__owner=u) | Q(trip__members__in=[u])\<close> is an OR over a multi-valued relation, so
  the ORM joins the through table with a LEFT OUTER JOIN: a trip without members
  contributes one row with a null member, any other trip one row per member.
\<close>

definition member_rows :: "trip \<Rightarrow> nat option list" where
  "member_rows t = (if members t = [] then [None] else map Some (members t))"

text \<open>
  The rows the joined query yields for one invite: one copy of the invite for every joined
  row that satisfies the WHERE clause \<^verbatim>\<open>owner = u OR member = u\<close>. There is no
  \<^verbatim>\<open>distinct()\<close> in the source.
\<close>

definition scope_rows :: "db \<Rightarrow> nat \<Rightarrow> invite \<Rightarrow> invite list" where
  "scope_rows d u i =
     (case trips d (trip i) of
        None \<Rightarrow> []
      | Some t \<Rightarrow> map (\<lambda>_. i) (filter (\<lambda>m. owner t = u \<or> m = Some u) (member_rows t)))"

text \<open>
  \<^verbatim>\<open>InviteViewSet.get_queryset\<close>. The \<^verbatim>\<open>trip\<close> parameter narrows the query only when it is
  truthy: an absent parameter and an empty string both leave the query as it is.
\<close>

definition get_queryset :: "db \<Rightarrow> request \<Rightarrow> invite list" where
  "get_queryset d req =
     (let qs = concat (map (scope_rows d (user_pk (user req))) (invites d));
          trip_search = query_trip req
      in case trip_search of
           None \<Rightarrow> qs
         | Some s \<Rightarrow>
             if s = [] then qs
             else filter (\<lambda>i. case trips d (trip i) of
                                 None \<Rightarrow> False
                               | Some t \<Rightarrow> trip_uid t = s) qs)"

text \<open>\<^verbatim>\<open>InvitePublicViewSet.get_queryset\<close>: only pending invitations are visible.\<close>

definition public_get_queryset :: "db \<Rightarrow> invite list" where
  "public_get_queryset d = objects_pending d"

text \<open>
  \<^verbatim>\<open>RetrieveModelMixin.retrieve\<close> of the public view set with \<^verbatim>\<open>lookup_field = 'uid'\<close>: the
  framework's \<^verbatim>\<open>get_object\<close> turns a missing row into a not-found response.
\<close>

definition retrieve :: "db \<Rightarrow> string \<Rightarrow> error + invite" where
  "retrieve d u =
     (case get_uid (public_get_queryset d) u of
        Inl e \<Rightarrow> Inl (if e = InviteDoesNotExist then NotFound else e)
      | Inr i \<Rightarrow> Inr i)"

section \<open>Model methods\<close>

text \<open>The key the database gives to the next inserted invite.\<close>

definition next_pk :: "invite list \<Rightarrow> nat" where
  "next_pk rows = Suc (fold max (map (\<lambda>i. case invite_pk i of None \<Rightarrow> 0 | Some k \<Rightarrow> k) rows) 0)"

text \<open>
  The constraint \<^verbatim>\<open>unique_together = ('trip', 'email')\<close>, checked by the database when a
  row is written: another row (one with a different key) holds the same pair.
\<close>

definition unique_violation :: "invite list \<Rightarrow> invite \<Rightarrow> bool" where
  "unique_violation rows i =
     (\<exists>j \<in> set rows. invite_pk j \<noteq> invite_pk i \<and> trip j = trip i \<and> email j = email i)"

text \<open>
  \<^verbatim>\<open>Invite.save\<close>: the email is normalised, then the row is written. An object without a
  key is inserted under a fresh key; an object with a key replaces the row of that key, or
  is inserted when there is none. A write that breaks the uniqueness constraint raises
  \<^verbatim>\<open>IntegrityError\<close> and changes nothing.
\<close>

definition save :: "db \<Rightarrow> invite \<Rightarrow> error + db" where
  "save d self =
     (let self = self\<lparr>email := strip (lower (email self))\<rparr>
      in if unique_violation (invites d) self then Inl IntegrityError
         else case invite_pk self of
                None \<Rightarrow>
                  Inr (d\<lparr>invites := invites d @ [self\<lparr>invite_pk := Some (next_pk (invites d))\<rparr>]\<rparr>)
              | Some k \<Rightarrow>
                  if \<exists>j \<in> set (invites d). invite_pk j = Some k
                  then Inr (d\<lparr>invites := map (\<lambda>j. if invite_pk j = Some k then self else j) (invites d)\<rparr>)
                  else Inr (d\<lparr>invites := invites d @ [self]\<rparr>))"

text \<open>
  Modelled from the spec: the transition methods \<^verbatim>\<open>Invite.accept\<close>, \<^verbatim>\<open>Invite.reject\<close> and
  \<^verbatim>\<open>Invite.cancel\<close>, which \<^verbatim>\<open>models.py\<close> as given does not define. The spec says that each
  sets the status of the invite to accepted, rejected and cancelled.
\<close>

definition set_status :: "db \<Rightarrow> invite \<Rightarrow> status \<Rightarrow> db" where
  "set_status d self s =
     d\<lparr>invites := map (\<lambda>j. if invite_pk j = invite_pk self then j\<lparr>status := s\<rparr> else j) (invites d)\<rparr>"

definition invite_accept :: "db \<Rightarrow> invite \<Rightarrow> db" where
  "invite_accept d self = set_status d self ACCEPTED"

definition invite_reject :: "db \<Rightarrow> invite \<Rightarrow> db" where
  "invite_reject d self = set_status d self REJECTED"

definition invite_cancel :: "db \<Rightarrow> invite \<Rightarrow> db" where
  "invite_cancel d self = set_status d self CANCELLED"

text \<open>
  Modelled from the spec: \<^verbatim>\<open>Trip.add_member\<close>, which is not part of the sources at hand.
  The spec says that it appends a user to the membership and is safe to repeat.
\<close>

definition add_member :: "db \<Rightarrow> nat \<Rightarrow> nat \<Rightarrow> db" where
  "add_member d trip_pk u =
     (case trips d trip_pk of
        None \<Rightarrow> d
      | Some t \<Rightarrow>
          if u \<in> set (members t) then d
          else d\<lparr>trips := (trips d)(trip_pk \<mapsto> t\<lparr>members := members t @ [u]\<rparr>)\<rparr>)"

section \<open>The authenticated view set\<close>

text \<open>
  \<^verbatim>\<open>validate_user_for_invite\<close>: raises \<^verbatim>\<open>NotFound\<close> unless the invite's email equals the
  email of the requesting user; the two stored strings are compared as they are.
\<close>

definition validate_user_for_invite :: "request \<Rightarrow> invite \<Rightarrow> error + unit" where
  "validate_user_for_invite req i =
     (if email i \<noteq> user_email (user req) then Inl NotFound else Inr ())"

text \<open>
  The local \<^verbatim>\<open>pending_invites\<close> of the \<^verbatim>\<open>pending\<close> list route.
\<close>

definition pending_invites :: "db \<Rightarrow> request \<Rightarrow> invite list" where
  "pending_invites d req = filter (\<lambda>i. status i = PENDING) (get_queryset d req)"

datatype 'r listing = PaginatedResponse 'r | Response 'r

text \<open>
  \<^verbatim>\<open>InviteViewSet.pending\<close>. The paginator and the serializer belong to the framework and
  are parameters: \<^verbatim>\<open>paginate_queryset\<close> returns a page or \<^verbatim>\<open>None\<close>, and the serializer
  receives what the source passes to it, which is \<^verbatim>\<open>page\<close> in both branches.
\<close>

definition pending ::
  "(invite list \<Rightarrow> invite list option) \<Rightarrow> (invite list option \<Rightarrow> 'r) \<Rightarrow> db \<Rightarrow> request \<Rightarrow> 'r listing" where
  "pending paginate_queryset get_serializer d req =
     (let page = paginate_queryset (pending_invites d req)
      in if page \<noteq> None then PaginatedResponse (get_serializer page)
         else Response (get_serializer page))"

text \<open>
  \<^verbatim>\<open>InviteViewSet.cancel\<close>. Only \<^verbatim>\<open>Invite.DoesNotExist\<close> is caught and turned into
  \<^verbatim>\<open>NotFound\<close>; every other exception leaves the view as it is.
\<close>

definition cancel :: "db \<Rightarrow> request \<Rightarrow> string \<Rightarrow> (error + response) \<times> db" where
  "cancel d req u =
     (case get_uid (filter (\<lambda>i. status i = PENDING) (get_queryset d req)) u of
        Inl e \<Rightarrow> (Inl (if e = InviteDoesNotExist then NotFound else e), d)
      | Inr i \<Rightarrow>
          (case trips d (trip i) of
             None \<Rightarrow> (Inl TripDoesNotExist, d)
           | Some t \<Rightarrow>
               if owner t \<noteq> user_pk (user req) then (Inl PermissionError, d)
               else (Inr HTTP_204_NO_CONTENT, invite_cancel d i)))"

text \<open>\<^verbatim>\<open>InviteViewSet.accept\<close>.\<close>

definition accept :: "db \<Rightarrow> request \<Rightarrow> string \<Rightarrow> (error + response) \<times> db" where
  "accept d req u =
     (case get_uid (objects_pending d) u of
        Inl e \<Rightarrow> (Inl (if e = InviteDoesNotExist then NotFound else e), d)
      | Inr i \<Rightarrow>
          (case validate_user_for_invite req i of
             Inl e \<Rightarrow> (Inl e, d)
           | Inr _ \<Rightarrow>
               (case trips d (trip i) of
                  None \<Rightarrow> (Inl TripDoesNotExist, d)
                | Some t \<Rightarrow>
                    (let is_user_owner = (owner t = user_pk (user req));
                         is_user_member = (user_pk (user req) \<in> set (members t))
                     in if is_user_owner \<or> is_user_member then (Inl ValidationError, d)
                        else (Inr HTTP_204_NO_CONTENT,
                              invite_accept (add_member d (trip i) (user_pk (user req))) i)))))"

text \<open>\<^verbatim>\<open>InviteViewSet.reject\<close>.\<close>

definition reject :: "db \<Rightarrow> request \<Rightarrow> string \<Rightarrow> (error + response) \<times> db" where
  "reject d req u =
     (case get_uid (objects_pending d) u of
        Inl e \<Rightarrow> (Inl (if e = InviteDoesNotExist then NotFound else e), d)
      | Inr i \<Rightarrow>
          (case validate_user_for_invite req i of
             Inl e \<Rightarrow> (Inl e, d)
           | Inr _ \<Rightarrow> (Inr HTTP_204_NO_CONTENT, invite_reject d i)))"

section \<open>The authentication backend\<close>


section \<open>Predicates used in the statements\<close>

text \<open>
  The narrowing by the \<^verbatim>\<open>trip\<close> query parameter, as a predicate on one invite: no
  parameter and the empty string let every invite through, any other value only the
  invites of the trip with that public identifier.
\<close>

definition trip_filter :: "db \<Rightarrow> string option \<Rightarrow> invite \<Rightarrow> bool" where
  "trip_filter d q i =
     (case q of None \<Rightarrow> True
      | Some s \<Rightarrow> s = [] \<or> (case trips d (trip i) of None \<Rightarrow> False | Some t \<Rightarrow> trip_uid t = s))"

text \<open>
  At most one invite for each pair of trip and email: the invariant that
  \<^verbatim>\<open>unique_together = ('trip', 'email')\<close> asks of the invite table.
\<close>

definition unique_trip_email :: "invite list \<Rightarrow> bool" where
  "unique_trip_email rows = distinct (map (\<lambda>i. (trip i, email i)) rows)"

section \<open>A concrete database\<close>

text \<open>
  The scenario of the spec: Alice owns trip T, Carol and Dave are its members, Bob and
  Frank are not involved in any trip. Bob and Dave have a pending invite, Carol's invite has
  been accepted. Further invites are about to be created: two spellings of Frank's address
  and two spellings of an address that begins with the letter of code 201 (a capital E with
  an acute accent, whose small letter has code 233).
\<close>

definition alice :: user where
  "alice = \<lparr>user_pk = 1, user_email = ''a@example.com''\<rparr>"

definition bob :: user where
  "bob = \<lparr>user_pk = 2, user_email = ''b@example.com''\<rparr>"

definition carol :: user where
  "carol = \<lparr>user_pk = 3, user_email = ''c@example.com''\<rparr>"

definition dave :: user where
  "dave = \<lparr>user_pk = 4, user_email = ''d@example.com''\<rparr>"

definition trip_T :: trip where
  "trip_T = \<lparr>trip_uid = ''T'', owner = 1, members = [3, 4]\<rparr>"

definition invite_b :: invite where
  "invite_b = \<lparr>invite_pk = Some 1, uid = ''inv-b'', trip = 7, email = ''b@example.com'', status = PENDING\<rparr>"

definition invite_c :: invite where
  "invite_c = \<lparr>invite_pk = Some 2, uid = ''inv-c'', trip = 7, email = ''c@example.com'', status = ACCEPTED\<rparr>"

definition invite_d :: invite where
  "invite_d = \<lparr>invite_pk = Some 3, uid = ''inv-d'', trip = 7, email = ''d@example.com'', status = PENDING\<rparr>"

definition example_db :: db where
  "example_db = \<lparr>trips = [7 \<mapsto> trip_T], invites = [invite_b, invite_c, invite_d]\<rparr>"


definition invite_f :: invite where
  "invite_f = \<lparr>invite_pk = None, uid = ''inv-f'', trip = 7, email = ''Foo@Bar.com '', status = PENDING\<rparr>"

definition invite_g :: invite where
  "invite_g = \<lparr>invite_pk = None, uid = ''inv-g'', trip = 7, email = '' foo@bar.com'', status = PENDING\<rparr>"

definition as_user :: "user \<Rightarrow> request" where
  "as_user u = \<lparr>user = u, query_trip = None\<rparr>"

definition example_db_f :: db where
  "example_db_f = example_db\<lparr>invites := invites example_db @
     [invite_f\<lparr>email := ''foo@bar.com'', invite_pk := Some 4\<rparr>]\<rparr>"

definition invite_h :: invite where
  "invite_h = \<lparr>invite_pk = None, uid = ''inv-h'', trip = 7,
                email = CHR 0xC9 # ''ric@example.com'', status = PENDING\<rparr>"

definition invite_k :: invite where
  "invite_k = \<lparr>invite_pk = None, uid = ''inv-k'', trip = 7,
                email = CHR 0xE9 # ''ric@example.com'', status = PENDING\<rparr>"

definition example_db_h :: db where
  "example_db_h = example_db\<lparr>invites := invites example_db @
     [invite_h\<lparr>email := CHR 0xE9 # ''ric@example.com'', invite_pk := Some 4\<rparr>]\<rparr>"



lemmas example_defs = alice_def bob_def carol_def dave_def trip_T_def invite_b_def invite_c_def
  invite_d_def example_db_def

section \<open>Properties of the normalisation\<close>










section \<open>Properties of the lookup by public identifier\<close>

lemma filter_uid_distinct:
  "distinct (map uid xs) \<Longrightarrow> i \<in> set xs \<Longrightarrow> filter (\<lambda>j. uid j = uid i) xs = [i]"
proof (induction xs)
  case Nil then show ?case by simp
next
  case (Cons x xs)
  show ?case
  proof (cases "x = i")
    case True
    from Cons.prems have "uid x \<notin> set (map uid xs)" by simp
    then have "\<forall>j \<in> set xs. uid j \<noteq> uid x" by (metis image_eqI set_map)
    with True have "\<forall>j \<in> set xs. uid j \<noteq> uid i" by simp
    then have "filter (\<lambda>j. uid j = uid i) xs = []" by (simp add: filter_empty_conv)
    with True show ?thesis by simp
  next
    case False
    from Cons.prems have "uid x \<notin> set (map uid xs)" by simp
    with False Cons.prems have "i \<in> set xs" "uid x \<noteq> uid i" by force+
    with Cons show ?thesis by simp
  qed
qed

lemma get_uid_found:
  "distinct (map uid qs) \<Longrightarrow> i \<in> set qs \<Longrightarrow> get_uid qs (uid i) = Inr i"
  by (simp add: get_uid_def filter_uid_distinct)

lemma get_uid_missing:
  "\<forall>j \<in> set qs. uid j \<noteq> u \<Longrightarrow> get_uid qs u = Inl InviteDoesNotExist"
proof -
  assume "\<forall>j \<in> set qs. uid j \<noteq> u"
  then have "filter (\<lambda>i. uid i = u) qs = []" by (simp add: filter_empty_conv)
  then show ?thesis by (simp add: get_uid_def)
qed

lemma get_uid_Inr: "get_uid qs u = Inr i \<Longrightarrow> i \<in> set qs \<and> uid i = u"
proof -
  assume a: "get_uid qs u = Inr i"
  then have "filter (\<lambda>i. uid i = u) qs = [i]"
    by (auto simp: get_uid_def split: list.splits)
  then have "i \<in> set (filter (\<lambda>i. uid i = u) qs)" by simp
  then show ?thesis by simp
qed

lemma distinct_uid_filter: "distinct (map uid xs) \<Longrightarrow> distinct (map uid (filter P xs))"
  by (simp add: distinct_map_filter)

section \<open>Properties of the pending manager and of the transitions\<close>

lemma objects_pending_found:
  assumes "distinct (map uid (invites d))" "i \<in> set (invites d)" "status i = PENDING"
  shows "get_uid (objects_pending d) (uid i) = Inr i"
proof -
  have "distinct (map uid (objects_pending d))"
    using assms(1) by (simp add: objects_pending_def distinct_uid_filter)
  moreover have "i \<in> set (objects_pending d)"
    using assms(2,3) by (simp add: objects_pending_def)
  ultimately show ?thesis by (rule get_uid_found)
qed

lemma objects_pending_missing:
  assumes "distinct (map uid (invites d))" "i \<in> set (invites d)" "status i \<noteq> PENDING"
  shows "get_uid (objects_pending d) (uid i) = Inl InviteDoesNotExist"
proof -
  have "\<forall>j \<in> set (objects_pending d). uid j \<noteq> uid i"
  proof
    fix j assume j: "j \<in> set (objects_pending d)"
    then have jin: "j \<in> set (invites d)" and jp: "status j = PENDING"
      by (simp_all add: objects_pending_def)
    show "uid j \<noteq> uid i"
    proof
      assume "uid j = uid i"
      with assms(1,2) jin have "j = i" by (metis distinct_map inj_onD)
      with jp assms(3) show False by simp
    qed
  qed
  then show ?thesis by (rule get_uid_missing)
qed

lemma set_status_row:
  "i \<in> set (invites d) \<Longrightarrow> i\<lparr>status := s\<rparr> \<in> set (invites (set_status d i s))"
  by (force simp: set_status_def)

lemma set_status_uid: "map uid (invites (set_status d i s)) = map uid (invites d)"
  by (simp add: set_status_def comp_def if_distrib cong: if_cong)

lemma set_status_trips: "trips (set_status d i s) = trips d"
  by (simp add: set_status_def)

lemma set_status_same_uid:
  assumes "distinct (map uid (invites d))" "i \<in> set (invites d)"
    and "j \<in> set (invites (set_status d i s))" "uid j = uid i"
  shows "status j = s"
proof -
  from assms(3) obtain k where k: "k \<in> set (invites d)"
    and j: "j = (if invite_pk k = invite_pk i then k\<lparr>status := s\<rparr> else k)"
    by (auto simp: set_status_def)
  then have "uid k = uid j" by simp
  with assms(1,2,4) k have "k = i" by (metis distinct_map inj_onD)
  with j show ?thesis by simp
qed

lemma set_status_pairs:
  "map (\<lambda>i. (trip i, email i)) (invites (set_status d i s)) = map (\<lambda>i. (trip i, email i)) (invites d)"
  by (simp add: set_status_def comp_def if_distrib cong: if_cong)

lemma add_member_invites: "invites (add_member d k u) = invites d"
  by (simp add: add_member_def split: option.splits)

lemma accept_pairs:
  "map (\<lambda>i. (trip i, email i)) (invites (snd (accept d req x))) = map (\<lambda>i. (trip i, email i)) (invites d)"
  by (simp add: accept_def invite_accept_def set_status_pairs add_member_invites Let_def
           split: sum.splits option.splits)

lemma reject_pairs:
  "map (\<lambda>i. (trip i, email i)) (invites (snd (reject d req x))) = map (\<lambda>i. (trip i, email i)) (invites d)"
  by (simp add: reject_def invite_reject_def set_status_pairs split: sum.splits)

lemma cancel_pairs:
  "map (\<lambda>i. (trip i, email i)) (invites (snd (cancel d req x))) = map (\<lambda>i. (trip i, email i)) (invites d)"
  by (simp add: cancel_def invite_cancel_def set_status_pairs split: sum.splits option.splits)

section \<open>Properties of the visibility scope\<close>

lemma scope_rows_copies: "j \<in> set (scope_rows d u i) \<Longrightarrow> j = i"
  by (auto simp: scope_rows_def split: option.splits)

lemma scope_rows_nonempty:
  "scope_rows d u i \<noteq> [] \<longleftrightarrow>
     (\<exists>t. trips d (trip i) = Some t \<and> (owner t = u \<or> u \<in> set (members t)))"
proof (cases "trips d (trip i)")
  case None
  then show ?thesis by (simp add: scope_rows_def)
next
  case (Some t)
  show ?thesis
  proof (cases "members t = []")
    case True
    with Some show ?thesis by (simp add: scope_rows_def member_rows_def)
  next
    case False
    with Some show ?thesis
      by (auto simp: scope_rows_def member_rows_def filter_empty_conv neq_Nil_conv)
  qed
qed

lemma set_scope_rows:
  "set (scope_rows d u i) =
     (if \<exists>t. trips d (trip i) = Some t \<and> (owner t = u \<or> u \<in> set (members t)) then {i} else {})"
proof (cases "scope_rows d u i = []")
  case True
  with scope_rows_nonempty [of d u i] show ?thesis by auto
next
  case False
  then obtain j where "j \<in> set (scope_rows d u i)" by (cases "scope_rows d u i") auto
  with scope_rows_copies have "i \<in> set (scope_rows d u i)" by blast
  with scope_rows_copies have "set (scope_rows d u i) = {i}" by blast
  with False scope_rows_nonempty [of d u i] show ?thesis by auto
qed

lemma get_queryset_filter:
  "get_queryset d req =
     filter (trip_filter d (query_trip req))
       (concat (map (scope_rows d (user_pk (user req))) (invites d)))"
proof (cases "query_trip req")
  case None
  then show ?thesis by (simp add: get_queryset_def trip_filter_def)
next
  case (Some s)
  then show ?thesis
    by (cases "s = []") (auto simp: get_queryset_def trip_filter_def intro!: filter_cong)
qed

lemma set_get_queryset:
  "set (get_queryset d req) =
     {i \<in> set (invites d). trip_filter d (query_trip req) i \<and>
        (\<exists>t. trips d (trip i) = Some t \<and>
             (owner t = user_pk (user req) \<or> user_pk (user req) \<in> set (members t)))}"
  by (auto simp: get_queryset_filter set_scope_rows split: if_splits)

lemma filter_uid_concat:
  assumes "distinct (map uid xs)" "i \<in> set xs" "\<And>k j. j \<in> set (f k) \<Longrightarrow> j = k"
  shows "filter (\<lambda>j. uid j = uid i) (concat (map f xs)) = f i"
  using assms(1,2)
proof (induction xs)
  case Nil then show ?case by simp
next
  case (Cons x xs)
  have self: "filter (\<lambda>j. uid j = uid k) (f k) = f k" for k
    by (auto simp: filter_id_conv dest: assms(3))
  have other: "filter (\<lambda>j. uid j = uid i) (f k) = []" if "uid k \<noteq> uid i" for k
    using that by (auto simp: filter_empty_conv dest: assms(3))
  from Cons.prems have nx: "uid x \<notin> set (map uid xs)" by simp
  show ?case
  proof (cases "x = i")
    case True
    from nx have "\<forall>k \<in> set xs. uid k \<noteq> uid x" by (metis image_eqI set_map)
    with True have "\<forall>k \<in> set xs. filter (\<lambda>j. uid j = uid i) (f k) = []"
      using other by simp
    then have "filter (\<lambda>j. uid j = uid i) (concat (map f xs)) = []"
      by (induction xs) simp_all
    with True self show ?thesis by simp
  next
    case False
    with Cons.prems nx have "i \<in> set xs" "uid x \<noteq> uid i" by force+
    with Cons other show ?thesis by simp
  qed
qed

lemma scope_lookup:
  assumes "distinct (map uid (invites d))" "i \<in> set (invites d)"
  shows "filter (\<lambda>j. uid j = uid i) (filter (\<lambda>j. status j = PENDING) (get_queryset d req)) =
           (if status i = PENDING \<and> trip_filter d (query_trip req) i
            then scope_rows d (user_pk (user req)) i else [])"
proof -
  let ?rows = "scope_rows d (user_pk (user req))"
  let ?P = "\<lambda>j. status j = PENDING \<and> trip_filter d (query_trip req) j"
  have "filter (\<lambda>j. uid j = uid i) (filter (\<lambda>j. status j = PENDING) (get_queryset d req)) =
        filter ?P (filter (\<lambda>j. uid j = uid i) (concat (map ?rows (invites d))))"
    by (simp add: get_queryset_filter conj_commute conj_left_commute)
  also have "filter (\<lambda>j. uid j = uid i) (concat (map ?rows (invites d))) = ?rows i"
    using assms scope_rows_copies by (rule filter_uid_concat)
  also have "filter ?P (?rows i) = (if ?P i then ?rows i else [])"
    using scope_rows_copies [of _ d "user_pk (user req)" i]
    by (auto simp: filter_id_conv filter_empty_conv)
  finally show ?thesis .
qed

lemma filter_eq_distinct: "distinct xs \<Longrightarrow> u \<in> set xs \<Longrightarrow> filter (\<lambda>k. k = u) xs = [u]"
  by (induction xs) (auto simp: filter_empty_conv)

lemma scope_rows_member:
  assumes "trips d (trip i) = Some t" "owner t \<noteq> u" "u \<in> set (members t)" "distinct (members t)"
  shows "scope_rows d u i = [i]"
proof -
  from assms(3) have ne: "members t \<noteq> []" by auto
  have "filter (\<lambda>m. m = Some u) (map Some (members t)) = map Some (filter (\<lambda>k. k = u) (members t))"
    by (simp add: filter_map comp_def)
  also have "\<dots> = [Some u]" using assms(3,4) by (simp add: filter_eq_distinct)
  finally show ?thesis using assms(1,2) ne by (simp add: scope_rows_def member_rows_def)
qed

lemma scope_rows_owner:
  assumes "trips d (trip i) = Some t" "owner t = u"
  shows "scope_rows d u i = replicate (max 1 (length (members t))) i"
  using assms by (cases "members t") (simp_all add: scope_rows_def member_rows_def map_replicate_const)

lemma cancel_lookup_empty:
  assumes "filter (\<lambda>j. uid j = x) (filter (\<lambda>j. status j = PENDING) (get_queryset d req)) = []"
  shows "cancel d req x = (Inl NotFound, d)"
  using assms by (simp add: cancel_def get_uid_def)

lemma get_uid_Inl:
  "get_uid qs u = Inl e \<Longrightarrow> e = InviteDoesNotExist \<or> e = MultipleObjectsReturned"
  by (auto simp: get_uid_def split: list.splits)

lemma cancel_by_member:
  assumes "distinct (map uid (invites d))" "i \<in> set (invites d)" "status i = PENDING"
    and "trips d (trip i) = Some t" "distinct (members t)"
    and "trip_filter d (query_trip req) i"
    and "owner t \<noteq> user_pk (user req)" "user_pk (user req) \<in> set (members t)"
  shows "cancel d req (uid i) = (Inl PermissionError, d)"
proof -
  have "scope_rows d (user_pk (user req)) i = [i]"
    using assms(4,7,8,5) by (rule scope_rows_member)
  then have "get_uid (filter (\<lambda>j. status j = PENDING) (get_queryset d req)) (uid i) = Inr i"
    using scope_lookup [OF assms(1,2), of req] assms(3,6) by (simp add: get_uid_def)
  then show ?thesis using assms(4,7) by (simp add: cancel_def)
qed

lemma cancel_by_owner:
  assumes "distinct (map uid (invites d))" "i \<in> set (invites d)" "status i = PENDING"
    and "trips d (trip i) = Some t"
    and "trip_filter d (query_trip req) i"
    and "owner t = user_pk (user req)"
  shows "cancel d req (uid i) =
           (if length (members t) \<le> 1 then (Inr HTTP_204_NO_CONTENT, invite_cancel d i)
            else (Inl MultipleObjectsReturned, d))"
proof -
  let ?n = "max 1 (length (members t))"
  have rows: "filter (\<lambda>j. uid j = uid i) (filter (\<lambda>j. status j = PENDING) (get_queryset d req)) =
      replicate ?n i"
    using scope_lookup [OF assms(1,2), of req] assms(3,5) scope_rows_owner [OF assms(4,6)] by simp
  show ?thesis
  proof (cases "length (members t) \<le> 1")
    case True
    then have "?n = 1" by simp
    with rows have "get_uid (filter (\<lambda>j. status j = PENDING) (get_queryset d req)) (uid i) = Inr i"
      by (simp add: get_uid_def)
    with True assms(4,6) show ?thesis by (simp add: cancel_def)
  next
    case False
    then have "2 \<le> length (members t)" by simp
    then obtain k where k: "length (members t) = Suc (Suc k)"
      by (metis add_2_eq_Suc le_Suc_ex)
    then have "replicate ?n i = i # i # replicate k i" by simp
    with rows have "filter (\<lambda>j. uid j = uid i) (filter (\<lambda>j. status j = PENDING) (get_queryset d req)) =
        i # i # replicate k i" by (simp only:)
    then have "get_uid (filter (\<lambda>j. status j = PENDING) (get_queryset d req)) (uid i) = Inl MultipleObjectsReturned"
      by (simp only: get_uid_def list.case)
    with False show ?thesis by (simp add: cancel_def)
  qed
qed

text \<open>
  Which invites the pending listing pages through, and how often each of them: the owner
  of a trip gets an invite once for every member of the trip.
\<close>

lemma set_pending_invites:
  "set (pending_invites d req) =
     {i \<in> set (invites d). status i = PENDING \<and>
        (\<exists>t. trips d (trip i) = Some t \<and>
             (owner t = user_pk (user req) \<or> user_pk (user req) \<in> set (members t)) \<and>
             (case query_trip req of None \<Rightarrow> True | Some s \<Rightarrow> s = [] \<or> trip_uid t = s))}"
  by (auto simp: pending_invites_def set_get_queryset trip_filter_def split: option.splits)

lemma pending_invites_owner_copies:
  assumes "distinct (map uid (invites d))" "i \<in> set (invites d)" "status i = PENDING"
    and "trips d (trip i) = Some t"
    and "trip_filter d (query_trip req) i"
    and "owner t = user_pk (user req)"
  shows "filter (\<lambda>j. uid j = uid i) (pending_invites d req) =
           replicate (max 1 (length (members t))) i"
  unfolding pending_invites_def
  using scope_lookup [OF assms(1,2), of req] assms(3,5) scope_rows_owner [OF assms(4,6)] by simp

lemma pending_page:
  "paginate_queryset (pending_invites d req) = Some page \<Longrightarrow>
     pending paginate_queryset get_serializer d req = PaginatedResponse (get_serializer (Some page))"
  by (simp add: pending_def)

text \<open>
  Without a page the source serialises \<^verbatim>\<open>page\<close>, which is \<^verbatim>\<open>None\<close>, and not the query set.
\<close>

lemma pending_without_page:
  "paginate_queryset (pending_invites d req) = None \<Longrightarrow>
     pending paginate_queryset get_serializer d req = Response (get_serializer None)"
  by (simp add: pending_def)

section \<open>Properties of saving and of authentication\<close>

lemma save_create:
  assumes "invite_pk a = None" "save d a = Inr d1"
  shows "\<not> unique_violation (invites d) (a\<lparr>email := normalise (email a)\<rparr>) \<and>
         d1 = d\<lparr>invites := invites d @
                [a\<lparr>email := normalise (email a), invite_pk := Some (next_pk (invites d))\<rparr>]\<rparr>"
  using assms by (auto simp: save_def normalise_def Let_def split: if_splits)




section \<open>Evaluation on the concrete database\<close>

lemma normalise_foo: "strip (lower ''Foo@Bar.com '') = ''foo@bar.com''"
  by code_simp

lemma normalise_foo': "strip (lower '' foo@bar.com'') = ''foo@bar.com''"
  by code_simp

lemma normalise_latin1:
  "strip (lower (CHR 0xC9 # ''ric@example.com'')) = CHR 0xE9 # ''ric@example.com''"
  "strip (lower (CHR 0xE9 # ''ric@example.com'')) = CHR 0xE9 # ''ric@example.com''"
  "strip (lower [CHR 0x85, CHR ''X'', CHR 0xA0]) = ''x''"
  by code_simp+

lemma save_invite_f: "save example_db invite_f = Inr example_db_f"
  by (simp add: save_def unique_violation_def invite_f_def normalise_foo next_pk_def
        example_db_f_def example_defs)

lemma save_invite_h: "save example_db invite_h = Inr example_db_h"
  by (simp add: save_def unique_violation_def invite_h_def normalise_latin1 next_pk_def
        example_db_h_def example_defs)


lemma example_db_uids: "distinct (map uid (invites example_db))"
  by (simp add: example_defs)

lemma example_db_rows:
  "invite_b \<in> set (invites example_db)" "invite_c \<in> set (invites example_db)"
  "invite_d \<in> set (invites example_db)"
  by (simp_all add: example_defs)

lemma example_db_trip:
  "trips example_db (trip invite_b) = Some trip_T" "trips example_db (trip invite_c) = Some trip_T"
  "trips example_db (trip invite_d) = Some trip_T"
  by (simp_all add: example_defs)

section \<open>The claims\<close>

text \<open>
  Claim C1. An invite whose status is accepted, rejected or cancelled makes no further
  transition: \<^verbatim>\<open>accept\<close>, \<^verbatim>\<open>reject\<close> and \<^verbatim>\<open>cancel\<close> on it answer not-found and leave the
  database, and with it the status of the invite, as it was.
\<close>

theorem resolved_invite_not_found:
  assumes "distinct (map uid (invites d))" "i \<in> set (invites d)" "status i \<noteq> PENDING"
  shows "accept d req (uid i) = (Inl NotFound, d) \<and>
         reject d req (uid i) = (Inl NotFound, d) \<and>
         cancel d req (uid i) = (Inl NotFound, d)"
proof -
  have "get_uid (objects_pending d) (uid i) = Inl InviteDoesNotExist"
    using assms by (rule objects_pending_missing)
  then have ar: "accept d req (uid i) = (Inl NotFound, d)" "reject d req (uid i) = (Inl NotFound, d)"
    by (simp_all add: accept_def reject_def)
  have "filter (\<lambda>j. uid j = uid i) (filter (\<lambda>j. status j = PENDING) (get_queryset d req)) = []"
    using scope_lookup [OF assms(1,2), of req] assms(3) by simp
  then have "cancel d req (uid i) = (Inl NotFound, d)" by (rule cancel_lookup_empty)
  with ar show ?thesis by simp
qed

text \<open>Claim C1 on Carol's accepted invite.\<close>

theorem resolved_invite_not_found_witness:
  "distinct (map uid (invites example_db)) \<and> invite_c \<in> set (invites example_db) \<and>
   status invite_c \<noteq> PENDING \<and>
   accept example_db (as_user carol) (uid invite_c) = (Inl NotFound, example_db) \<and>
   reject example_db (as_user carol) (uid invite_c) = (Inl NotFound, example_db) \<and>
   cancel example_db (as_user alice) (uid invite_c) = (Inl NotFound, example_db)"
proof -
  have s: "status invite_c \<noteq> PENDING" by (simp add: invite_c_def)
  from resolved_invite_not_found [OF example_db_uids example_db_rows(2) s, of "as_user carol"]
    resolved_invite_not_found [OF example_db_uids example_db_rows(2) s, of "as_user alice"]
  show ?thesis using example_db_uids example_db_rows(2) s by blast
qed

text \<open>
  Claim C2. For a pending invite whose email equals the email of the acting user:
  when the user is neither the owner nor a member of the trip, \<^verbatim>\<open>accept\<close> answers
  no-content, the user is added to the members of the trip and the invite is accepted;
  when the user is the owner or a member already, \<^verbatim>\<open>accept\<close> fails with a validation
  error and changes nothing.
\<close>

theorem accept_pending_invite:
  assumes "distinct (map uid (invites d))" "i \<in> set (invites d)" "status i = PENDING"
    and "email i = user_email (user req)"
    and "trips d (trip i) = Some t"
  shows "(owner t \<noteq> user_pk (user req) \<and> user_pk (user req) \<notin> set (members t) \<longrightarrow>
            fst (accept d req (uid i)) = Inr HTTP_204_NO_CONTENT \<and>
            trips (snd (accept d req (uid i))) (trip i) =
              Some (t\<lparr>members := members t @ [user_pk (user req)]\<rparr>) \<and>
            i\<lparr>status := ACCEPTED\<rparr> \<in> set (invites (snd (accept d req (uid i)))) \<and>
            (\<forall>j \<in> set (invites (snd (accept d req (uid i)))). uid j = uid i \<longrightarrow> status j = ACCEPTED)) \<and>
         (owner t = user_pk (user req) \<or> user_pk (user req) \<in> set (members t) \<longrightarrow>
            accept d req (uid i) = (Inl ValidationError, d))"
proof -
  let ?u = "user_pk (user req)"
  let ?d1 = "add_member d (trip i) ?u"
  have g: "get_uid (objects_pending d) (uid i) = Inr i"
    using assms(1-3) by (rule objects_pending_found)
  have v: "validate_user_for_invite req i = Inr ()"
    using assms(4) by (simp add: validate_user_for_invite_def)
  have bad: "owner t = ?u \<or> ?u \<in> set (members t) \<Longrightarrow> accept d req (uid i) = (Inl ValidationError, d)"
    using g v assms(5) by (simp add: accept_def)
  have good: "accept d req (uid i) = (Inr HTTP_204_NO_CONTENT, invite_accept ?d1 i)"
    if "owner t \<noteq> ?u \<and> ?u \<notin> set (members t)"
    using g v assms(5) that by (simp add: accept_def)
  have inv1: "invites ?d1 = invites d"
    by (simp add: add_member_def split: option.splits)
  have tr: "trips (invite_accept ?d1 i) (trip i) = Some (t\<lparr>members := members t @ [?u]\<rparr>)"
    if "?u \<notin> set (members t)"
    using assms(5) that by (simp add: invite_accept_def set_status_trips add_member_def)
  have row: "i\<lparr>status := ACCEPTED\<rparr> \<in> set (invites (invite_accept ?d1 i))"
    unfolding invite_accept_def using assms(2) inv1 by (simp add: set_status_row)
  have only: "\<forall>j \<in> set (invites (invite_accept ?d1 i)). uid j = uid i \<longrightarrow> status j = ACCEPTED"
    unfolding invite_accept_def using set_status_same_uid [of ?d1 i] assms(1,2) inv1 by auto
  show ?thesis using bad good tr row only by simp
qed

text \<open>Claim C2 for Bob, who joins the trip, and for Dave, who is a member already.\<close>

theorem accept_pending_invite_witness:
  "fst (accept example_db (as_user bob) (uid invite_b)) = Inr HTTP_204_NO_CONTENT \<and>
   trips (snd (accept example_db (as_user bob) (uid invite_b))) (trip invite_b) =
     Some (trip_T\<lparr>members := members trip_T @ [user_pk (user (as_user bob))]\<rparr>) \<and>
   invite_b\<lparr>status := ACCEPTED\<rparr> \<in> set (invites (snd (accept example_db (as_user bob) (uid invite_b)))) \<and>
   accept example_db (as_user dave) (uid invite_d) = (Inl ValidationError, example_db)"
proof -
  have pb: "status invite_b = PENDING" and pd: "status invite_d = PENDING"
    by (simp_all add: example_defs)
  have eb: "email invite_b = user_email (user (as_user bob))"
    and ed: "email invite_d = user_email (user (as_user dave))"
    by (simp_all add: as_user_def example_defs)
  have out: "owner trip_T \<noteq> user_pk (user (as_user bob)) \<and>
             user_pk (user (as_user bob)) \<notin> set (members trip_T)"
    by (simp add: as_user_def example_defs)
  have inside: "owner trip_T = user_pk (user (as_user dave)) \<or>
                user_pk (user (as_user dave)) \<in> set (members trip_T)"
    by (simp add: as_user_def example_defs)
  from accept_pending_invite [OF example_db_uids example_db_rows(1) pb eb example_db_trip(1)]
    accept_pending_invite [OF example_db_uids example_db_rows(3) pd ed example_db_trip(3)]
    out inside
  show ?thesis by blast
qed

text \<open>
  Claim C3. A cancel attempt on a pending invite in the caller's scope by a user who is not
  the owner of the trip fails with a permission error and changes nothing; a cancel by the
  owner sets the status to cancelled and answers no-content. The first half holds
  (\<open>cancel_by_member\<close>). The second half holds only for a trip with at most one member
  (\<open>cancel_by_owner\<close>): the scope query joins the members of the trip without
  \<^verbatim>\<open>distinct()\<close>, so for the owner of a trip with two members it holds the invite twice
  and \<^verbatim>\<open>get(uid=uid)\<close> raises \<^verbatim>\<open>MultipleObjectsReturned\<close>, which the view does not catch.
  Alice owns trip T with the members Carol and Dave and cancels Bob's pending invite.
\<close>

theorem cancel_owner_multiple_objects:
  "owner trip_T = user_pk alice \<and> status invite_b = PENDING \<and>
   cancel example_db (as_user alice) (uid invite_b) = (Inl MultipleObjectsReturned, example_db)"
  by (simp add: cancel_def get_uid_def get_queryset_def scope_rows_def member_rows_def as_user_def
        example_defs)

text \<open>
  Claim C4. On a pending invite, \<^verbatim>\<open>accept\<close> and \<^verbatim>\<open>reject\<close> by a user whose email differs
  from the email of the invite answer not-found, not a permission error, and change
  nothing.
\<close>

theorem email_mismatch_not_found:
  assumes "distinct (map uid (invites d))" "i \<in> set (invites d)" "status i = PENDING"
    and "email i \<noteq> user_email (user req)"
  shows "accept d req (uid i) = (Inl NotFound, d) \<and> reject d req (uid i) = (Inl NotFound, d)"
proof -
  have "get_uid (objects_pending d) (uid i) = Inr i"
    using assms(1-3) by (rule objects_pending_found)
  moreover have "validate_user_for_invite req i = Inl NotFound"
    using assms(4) by (simp add: validate_user_for_invite_def)
  ultimately show ?thesis by (simp add: accept_def reject_def)
qed

text \<open>Claim C4 for Carol on Bob's invite.\<close>

theorem email_mismatch_not_found_witness:
  "distinct (map uid (invites example_db)) \<and> invite_b \<in> set (invites example_db) \<and>
   status invite_b = PENDING \<and> email invite_b \<noteq> user_email (user (as_user carol)) \<and>
   accept example_db (as_user carol) (uid invite_b) = (Inl NotFound, example_db) \<and>
   reject example_db (as_user carol) (uid invite_b) = (Inl NotFound, example_db)"
proof -
  have p: "status invite_b = PENDING" by (simp add: invite_b_def)
  have e: "email invite_b \<noteq> user_email (user (as_user carol))"
    by (simp add: as_user_def example_defs)
  from email_mismatch_not_found [OF example_db_uids example_db_rows(1) p e]
  show ?thesis using example_db_uids example_db_rows(1) p e by blast
qed



text \<open>
  Claim C6. At most one invite exists for each pair of trip and email: creating an invite
  keeps the invariant, as do \<^verbatim>\<open>accept\<close>, \<^verbatim>\<open>reject\<close> and \<^verbatim>\<open>cancel\<close>, and once an invite has
  been created a second creation for the same trip with an email that is equal after
  normalisation fails with an integrity error.
\<close>

theorem one_invite_per_trip_and_email:
  assumes "\<forall>j \<in> set (invites d). invite_pk j \<noteq> None"
    and "unique_trip_email (invites d)"
    and "invite_pk a = None" "invite_pk b = None"
    and "trip b = trip a" "normalise (email b) = normalise (email a)"
    and "save d a = Inr d1"
  shows "save d1 b = Inl IntegrityError \<and>
         unique_trip_email (invites d1) \<and>
         (\<forall>j \<in> set (invites d1). invite_pk j \<noteq> None) \<and>
         unique_trip_email (invites (snd (accept d req x))) \<and>
         unique_trip_email (invites (snd (reject d req x))) \<and>
         unique_trip_email (invites (snd (cancel d req x)))"
proof -
  let ?row = "a\<lparr>email := normalise (email a), invite_pk := Some (next_pk (invites d))\<rparr>"
  from save_create [OF assms(3,7)]
  have nv: "\<not> unique_violation (invites d) (a\<lparr>email := normalise (email a)\<rparr>)"
    and d1: "d1 = d\<lparr>invites := invites d @ [?row]\<rparr>" by blast+
  from nv assms(1,3) have fresh: "\<forall>j \<in> set (invites d). (trip j, email j) \<noteq> (trip a, normalise (email a))"
    by (auto simp: unique_violation_def)
  have u1: "unique_trip_email (invites d1)"
    using assms(2) fresh by (auto simp: d1 unique_trip_email_def)
  have k1: "\<forall>j \<in> set (invites d1). invite_pk j \<noteq> None"
    using assms(1) by (simp add: d1)
  have "unique_violation (invites d1) (b\<lparr>email := normalise (email b)\<rparr>)"
    unfolding unique_violation_def
  proof
    show "?row \<in> set (invites d1)" by (simp add: d1)
    show "invite_pk ?row \<noteq> invite_pk (b\<lparr>email := normalise (email b)\<rparr>) \<and>
          trip ?row = trip (b\<lparr>email := normalise (email b)\<rparr>) \<and>
          email ?row = email (b\<lparr>email := normalise (email b)\<rparr>)"
      using assms(4,5,6) by simp
  qed
  then have s2: "save d1 b = Inl IntegrityError"
    by (simp add: save_def normalise_def)
  have v: "unique_trip_email (invites (snd (accept d req x)))"
    "unique_trip_email (invites (snd (reject d req x)))"
    "unique_trip_email (invites (snd (cancel d req x)))"
    using assms(2) by (simp_all add: unique_trip_email_def accept_pairs reject_pairs cancel_pairs)
  show ?thesis using s2 u1 k1 v by simp
qed

text \<open>
  Claim C6 for the two spellings \<^verbatim>\<open>"Foo@Bar.com "\<close> and \<^verbatim>\<open>" foo@bar.com"\<close> of one address,
  and for two addresses that differ in the case of an accented first letter.
\<close>

theorem one_invite_per_trip_and_email_witness:
  "None \<notin> set (map invite_pk (invites example_db)) \<and>
   unique_trip_email (invites example_db) \<and>
   email invite_f = ''Foo@Bar.com '' \<and> email invite_g = '' foo@bar.com'' \<and>
   normalise (email invite_g) = normalise (email invite_f) \<and>
   save example_db invite_f = Inr example_db_f \<and>
   save example_db_f invite_g = Inl IntegrityError \<and>
   unique_trip_email (invites example_db_f) \<and>
   email invite_h = CHR 0xC9 # ''ric@example.com'' \<and>
   email invite_k = CHR 0xE9 # ''ric@example.com'' \<and>
   save example_db invite_h = Inr example_db_h \<and>
   save example_db_h invite_k = Inl IntegrityError"
proof -
  have k: "\<forall>j \<in> set (invites example_db). invite_pk j \<noteq> None" by (simp add: example_defs)
  have k': "None \<notin> set (map invite_pk (invites example_db))" by (simp add: example_defs)
  have u: "unique_trip_email (invites example_db)" by (simp add: unique_trip_email_def example_defs)
  have n: "normalise (email invite_g) = normalise (email invite_f)"
    by (simp add: normalise_def invite_f_def invite_g_def normalise_foo normalise_foo')
  have m: "normalise (email invite_k) = normalise (email invite_h)"
    by (simp add: normalise_def invite_h_def invite_k_def normalise_latin1)
  have pf: "invite_pk invite_f = None" and pg: "invite_pk invite_g = None"
    and t: "trip invite_g = trip invite_f"
    and e: "email invite_f = ''Foo@Bar.com ''" "email invite_g = '' foo@bar.com''"
    by (simp_all add: invite_f_def invite_g_def)
  have ph: "invite_pk invite_h = None" and pk: "invite_pk invite_k = None"
    and t': "trip invite_k = trip invite_h"
    and e': "email invite_h = CHR 0xC9 # ''ric@example.com''"
      "email invite_k = CHR 0xE9 # ''ric@example.com''"
    by (simp_all add: invite_h_def invite_k_def)
  from one_invite_per_trip_and_email [OF k u pf pg t n save_invite_f]
    one_invite_per_trip_and_email [OF k u ph pk t' m save_invite_h]
  show ?thesis using k' u n e e' save_invite_f save_invite_h by blast
qed

text \<open>
  Claim C7. The pending listing is to return exactly the pending invites of the trips of
  which the caller is the owner or a member, narrowed by the trip parameter, in pages. As a
  set the invites it pages through are those (\<open>set_pending_invites\<close>), but the scope
  query joins the members of the trip without \<^verbatim>\<open>distinct()\<close>, so the owner of a trip is
  served every invite once per member of the trip (\<open>pending_invites_owner_copies\<close>).
  Alice owns trip T with the members Carol and Dave; the trip has two pending invites, and
  her first page of two holds Bob's invite twice and Dave's invite not at all.
\<close>

theorem pending_listing_repeats_invites:
  "owner trip_T = user_pk alice \<and> members trip_T = [user_pk carol, user_pk dave] \<and>
   pending_invites example_db (as_user alice) = [invite_b, invite_b, invite_d, invite_d] \<and>
   pending (\<lambda>qs. Some (take 2 qs)) (map_option (map uid)) example_db (as_user alice) =
     PaginatedResponse (Some [''inv-b'', ''inv-b''])"
  by (simp add: pending_def pending_invites_def get_queryset_def scope_rows_def member_rows_def
        as_user_def example_defs)

text \<open>
  Claim C8. The lookup without authentication returns an invite for a public identifier
  if and only if an invite with that identifier exists and is pending; when no pending
  invite has the identifier, whether or not a resolved one has it, the answer is not-found.
\<close>

theorem retrieve_pending_only:
  assumes "distinct (map uid (invites d))"
  shows "(retrieve d u = Inr i \<longleftrightarrow> i \<in> set (invites d) \<and> uid i = u \<and> status i = PENDING) \<and>
         ((\<forall>j \<in> set (invites d). uid j = u \<longrightarrow> status j \<noteq> PENDING) \<longrightarrow> retrieve d u = Inl NotFound)"
proof -
  have found: "i \<in> set (invites d) \<and> uid i = u \<and> status i = PENDING"
    if "retrieve d u = Inr i"
  proof -
    from that have "get_uid (objects_pending d) u = Inr i"
      by (simp add: retrieve_def public_get_queryset_def split: sum.splits)
    then have "i \<in> set (objects_pending d) \<and> uid i = u" by (rule get_uid_Inr)
    then show ?thesis by (simp add: objects_pending_def)
  qed
  have returned: "retrieve d u = Inr i"
    if "i \<in> set (invites d) \<and> uid i = u \<and> status i = PENDING"
  proof -
    from that assms have "get_uid (objects_pending d) u = Inr i"
      using objects_pending_found by blast
    then show ?thesis by (simp add: retrieve_def public_get_queryset_def)
  qed
  have hidden: "retrieve d u = Inl NotFound"
    if "\<forall>j \<in> set (invites d). uid j = u \<longrightarrow> status j \<noteq> PENDING"
  proof -
    from that have "\<forall>j \<in> set (objects_pending d). uid j \<noteq> u"
      by (auto simp: objects_pending_def)
    then have "get_uid (objects_pending d) u = Inl InviteDoesNotExist" by (rule get_uid_missing)
    then show ?thesis by (simp add: retrieve_def public_get_queryset_def)
  qed
  show ?thesis using found returned hidden by blast
qed

text \<open>Claim C8 on Bob's pending invite and on Carol's accepted invite.\<close>

theorem retrieve_pending_only_witness:
  "distinct (map uid (invites example_db)) \<and>
   retrieve example_db (uid invite_b) = Inr invite_b \<and>
   retrieve example_db (uid invite_c) = Inl NotFound"
proof -
  have b: "invite_b \<in> set (invites example_db) \<and> uid invite_b = uid invite_b \<and> status invite_b = PENDING"
    by (simp add: example_defs)
  have c: "\<forall>j \<in> set (invites example_db). uid j = uid invite_c \<longrightarrow> status j \<noteq> PENDING"
    by (simp add: example_defs)
  from retrieve_pending_only [OF example_db_uids, of "uid invite_b" invite_b]
    retrieve_pending_only [OF example_db_uids, of "uid invite_c" invite_c] b c
  show ?thesis using example_db_uids by blast
qed

text \<open>
  Claim C9. \<^verbatim>\<open>accept\<close> and \<^verbatim>\<open>reject\<close> look the invite up among all pending invites, not in
  the caller's scope. For a pending invite whose email equals the email of the acting user,
  \<^verbatim>\<open>reject\<close> rejects that invite and \<^verbatim>\<open>accept\<close> reaches the membership check of that
  invite's trip, after which it accepts that invite for a user who is neither owner nor
  member; in particular it does so for a user who is owner or member of no trip at all,
  whose scope is empty. The trip query parameter changes the result of neither action, and
  for an identifier that no pending invite has both actions answer not-found.
\<close>

theorem accept_reject_global_lookup:
  assumes "distinct (map uid (invites d))" "i \<in> set (invites d)" "status i = PENDING"
    and "email i = user_email (user req)"
    and "trips d (trip i) = Some t"
  shows "reject d req (uid i) = (Inr HTTP_204_NO_CONTENT, invite_reject d i) \<and>
         accept d req (uid i) =
           (if owner t = user_pk (user req) \<or> user_pk (user req) \<in> set (members t)
            then (Inl ValidationError, d)
            else (Inr HTTP_204_NO_CONTENT,
                  invite_accept (add_member d (trip i) (user_pk (user req))) i)) \<and>
         ((\<forall>k t'. trips d k = Some t' \<longrightarrow>
              owner t' \<noteq> user_pk (user req) \<and> user_pk (user req) \<notin> set (members t')) \<longrightarrow>
            get_queryset d req = [] \<and>
            accept d req (uid i) =
              (Inr HTTP_204_NO_CONTENT,
               invite_accept (add_member d (trip i) (user_pk (user req))) i)) \<and>
         accept d (req\<lparr>query_trip := q\<rparr>) x = accept d req x \<and>
         reject d (req\<lparr>query_trip := q\<rparr>) x = reject d req x \<and>
         ((\<forall>j \<in> set (invites d). uid j = x \<longrightarrow> status j \<noteq> PENDING) \<longrightarrow>
            accept d req x = (Inl NotFound, d) \<and> reject d req x = (Inl NotFound, d))"
proof -
  let ?u = "user_pk (user req)"
  have g: "get_uid (objects_pending d) (uid i) = Inr i"
    using assms(1-3) by (rule objects_pending_found)
  have v: "validate_user_for_invite req i = Inr ()"
    using assms(4) by (simp add: validate_user_for_invite_def)
  have r: "reject d req (uid i) = (Inr HTTP_204_NO_CONTENT, invite_reject d i)"
    using g v by (simp add: reject_def)
  have a: "accept d req (uid i) =
           (if owner t = ?u \<or> ?u \<in> set (members t) then (Inl ValidationError, d)
            else (Inr HTTP_204_NO_CONTENT, invite_accept (add_member d (trip i) ?u) i))"
    using g v assms(5) by (simp add: accept_def Let_def)
  have q1: "accept d (req\<lparr>query_trip := q\<rparr>) x = accept d req x"
    by (simp add: accept_def validate_user_for_invite_def split: sum.splits option.splits)
  have q2: "reject d (req\<lparr>query_trip := q\<rparr>) x = reject d req x"
    by (simp add: reject_def validate_user_for_invite_def split: sum.splits)
  have out: "get_queryset d req = [] \<and>
             accept d req (uid i) =
               (Inr HTTP_204_NO_CONTENT, invite_accept (add_member d (trip i) ?u) i)"
    if h: "\<forall>k t'. trips d k = Some t' \<longrightarrow> owner t' \<noteq> ?u \<and> ?u \<notin> set (members t')"
  proof
    have "scope_rows d ?u j = []" for j
      using h scope_rows_nonempty [of d ?u j] by blast
    then show "get_queryset d req = []"
      by (simp add: get_queryset_def Let_def split: option.splits)
    from h assms(5) have "owner t \<noteq> ?u" "?u \<notin> set (members t)" by blast+
    with a show "accept d req (uid i) =
        (Inr HTTP_204_NO_CONTENT, invite_accept (add_member d (trip i) ?u) i)" by simp
  qed
  have absent: "accept d req x = (Inl NotFound, d) \<and> reject d req x = (Inl NotFound, d)"
    if "\<forall>j \<in> set (invites d). uid j = x \<longrightarrow> status j \<noteq> PENDING"
  proof -
    from that have "\<forall>j \<in> set (objects_pending d). uid j \<noteq> x"
      by (auto simp: objects_pending_def)
    then have "get_uid (objects_pending d) x = Inl InviteDoesNotExist" by (rule get_uid_missing)
    then show ?thesis by (simp add: accept_def reject_def)
  qed
  show ?thesis using r a q1 q2 out absent by blast
qed

text \<open>
  Claim C9 for Bob, who is involved in no trip: his scope is empty, \<^verbatim>\<open>accept\<close> makes him a
  member and sets his invite to accepted, and an identifier that no invite has is not found.
\<close>

theorem accept_reject_global_lookup_witness:
  "get_queryset example_db (as_user bob) = [] \<and>
   accept example_db (as_user bob) (uid invite_b) =
     (Inr HTTP_204_NO_CONTENT,
      invite_accept (add_member example_db (trip invite_b) (user_pk (user (as_user bob)))) invite_b) \<and>
   invites (invite_accept (add_member example_db (trip invite_b) (user_pk (user (as_user bob)))) invite_b) =
     [invite_b\<lparr>status := ACCEPTED\<rparr>, invite_c, invite_d] \<and>
   reject example_db (as_user bob) (uid invite_b) =
     (Inr HTTP_204_NO_CONTENT, invite_reject example_db invite_b) \<and>
   invites (invite_reject example_db invite_b) = [invite_b\<lparr>status := REJECTED\<rparr>, invite_c, invite_d] \<and>
   accept example_db ((as_user bob)\<lparr>query_trip := Some ''other''\<rparr>) (uid invite_b) =
     accept example_db (as_user bob) (uid invite_b) \<and>
   accept example_db (as_user bob) ''inv-x'' = (Inl NotFound, example_db) \<and>
   reject example_db (as_user bob) ''inv-x'' = (Inl NotFound, example_db)"
proof -
  have p: "status invite_b = PENDING" by (simp add: invite_b_def)
  have e: "email invite_b = user_email (user (as_user bob))"
    by (simp add: as_user_def example_defs)
  have nowhere: "\<forall>k t'. trips example_db k = Some t' \<longrightarrow>
      owner t' \<noteq> user_pk (user (as_user bob)) \<and> user_pk (user (as_user bob)) \<notin> set (members t')"
    by (auto simp: as_user_def example_defs split: if_splits)
  have nox: "\<forall>j \<in> set (invites example_db). uid j = ''inv-x'' \<longrightarrow> status j \<noteq> PENDING"
    by (simp add: example_defs)
  have ia: "invites (invite_accept (add_member example_db (trip invite_b)
      (user_pk (user (as_user bob)))) invite_b) = [invite_b\<lparr>status := ACCEPTED\<rparr>, invite_c, invite_d]"
    by (simp add: invite_accept_def set_status_def add_member_invites) (simp add: example_defs)
  have ir: "invites (invite_reject example_db invite_b) =
      [invite_b\<lparr>status := REJECTED\<rparr>, invite_c, invite_d]"
    by (simp add: invite_reject_def set_status_def example_defs)
  from accept_reject_global_lookup [OF example_db_uids example_db_rows(1) p e example_db_trip(1),
      of "Some ''other''" "uid invite_b"]
    accept_reject_global_lookup [OF example_db_uids example_db_rows(1) p e example_db_trip(1),
      of "Some ''other''" "''inv-x''"] nowhere nox ia ir
  show ?thesis by blast
qed

text \<open>
  Claim C10. \<^verbatim>\<open>cancel\<close> looks the invite up in the caller's scope: a caller who is neither
  the owner nor a member of the invite's trip gets not-found, and a permission error can
  only go to a caller who is a member of the trip and not its owner.
\<close>

theorem cancel_scope:
  assumes "distinct (map uid (invites d))" "i \<in> set (invites d)" "trips d (trip i) = Some t"
  shows "(owner t \<noteq> user_pk (user req) \<and> user_pk (user req) \<notin> set (members t) \<longrightarrow>
            cancel d req (uid i) = (Inl NotFound, d)) \<and>
         (fst (cancel d req (uid i)) = Inl PermissionError \<longrightarrow>
            owner t \<noteq> user_pk (user req) \<and> user_pk (user req) \<in> set (members t))"
proof -
  let ?u = "user_pk (user req)"
  let ?qs = "filter (\<lambda>j. status j = PENDING) (get_queryset d req)"
  have outside: "cancel d req (uid i) = (Inl NotFound, d)"
    if "owner t \<noteq> ?u \<and> ?u \<notin> set (members t)"
  proof -
    from that assms(3) have "scope_rows d ?u i = []"
      using scope_rows_nonempty [of d ?u i] by auto
    then have "filter (\<lambda>j. uid j = uid i) ?qs = []"
      using scope_lookup [OF assms(1,2), of req] by simp
    then show ?thesis by (rule cancel_lookup_empty)
  qed
  have perm: "owner t \<noteq> ?u \<and> ?u \<in> set (members t)"
    if p: "fst (cancel d req (uid i)) = Inl PermissionError"
  proof -
    from p obtain j where j: "get_uid ?qs (uid i) = Inr j"
      by (cases "get_uid ?qs (uid i)")
         (auto simp: cancel_def dest: get_uid_Inl split: if_splits)
    then have "j \<in> set ?qs" "uid j = uid i" using get_uid_Inr by blast+
    then have jin: "j \<in> set (get_queryset d req)" by simp
    then have "j \<in> set (invites d)" by (simp add: set_get_queryset)
    with assms(1,2) \<open>uid j = uid i\<close> have "j = i" by (metis distinct_map inj_onD)
    with p j assms(3) have "owner t \<noteq> ?u"
      by (auto simp: cancel_def split: if_splits)
    moreover from jin \<open>j = i\<close> assms(3) have "owner t = ?u \<or> ?u \<in> set (members t)"
      by (simp add: set_get_queryset)
    ultimately show ?thesis by blast
  qed
  show ?thesis using outside perm by blast
qed

text \<open>Claim C10 for Bob, outside the trip, and for Dave, a member of it.\<close>

theorem cancel_scope_witness:
  "cancel example_db (as_user bob) (uid invite_b) = (Inl NotFound, example_db) \<and>
   fst (cancel example_db (as_user dave) (uid invite_b)) = Inl PermissionError \<and>
   owner trip_T \<noteq> user_pk (user (as_user dave)) \<and>
   user_pk (user (as_user dave)) \<in> set (members trip_T)"
proof -
  have out: "owner trip_T \<noteq> user_pk (user (as_user bob)) \<and>
             user_pk (user (as_user bob)) \<notin> set (members trip_T)"
    by (simp add: as_user_def example_defs)
  have p: "fst (cancel example_db (as_user dave) (uid invite_b)) = Inl PermissionError"
    by (simp add: cancel_def get_uid_def get_queryset_def scope_rows_def member_rows_def
          as_user_def example_defs)
  from cancel_scope [OF example_db_uids example_db_rows(1) example_db_trip(1), of "as_user bob"]
    cancel_scope [OF example_db_uids example_db_rows(1) example_db_trip(1), of "as_user dave"]
    out p
  show ?thesis by blast
qed

end
